theory Spec2Isabelle
  imports Complex_Main "HOL-Library.Multiset"
begin

section \<open>Data model (types.h, xycut.h)\<close>

text \<open>
  The reading-order code works on \<open>float\<close> coordinates and \<open>int\<close> pixel
  positions. Coordinates are modelled as \<open>real\<close>, that is with exact arithmetic. Every
  concrete input below has small integers and halves as coordinates, on which \<open>float\<close>
  arithmetic is exact as well, and page sizes whose product with \<open>minGapRatio\<close>
  truncates to the same integer in \<open>float\<close> as here. \<open>int\<close> is the unbounded \<open>int\<close>:
  all counters and positions are bounded by a vector size or a page dimension. NaN,
  infinities and \<open>float\<close> values outside the range of \<open>int\<close> are outside the model.
\<close>

datatype LayoutCategory =
  TEXT | TITLE | FIGURE | FIGURE_CAPTION | TABLE | TABLE_CAPTION | TABLE_FOOTNOTE
  | HEADER | FOOTER | REFERENCE | EQUATION | INTERLINE_EQUATION | STAMP | CODE | TOC
  | ABSTRACT | CONTENT | LIST | INDEX | SEPARATOR | UNKNOWN

record LayoutBox =
  x0 :: real
  y0 :: real
  x1 :: real
  y1 :: real
  category :: LayoutCategory
  confidence :: real
  index :: int

definition width :: "LayoutBox \<Rightarrow> real" where
  "width b = x1 b - x0 b"

definition height :: "LayoutBox \<Rightarrow> real" where
  "height b = y1 b - y0 b"

definition center_x :: "LayoutBox \<Rightarrow> real" where
  "center_x b = (x0 b + x1 b) / 2"

definition center_y :: "LayoutBox \<Rightarrow> real" where
  "center_y b = (y0 b + y1 b) / 2"

datatype TextDirection = HORIZONTAL | VERTICAL | AUTO

record XYCutConfig =
  direction :: TextDirection
  minGapRatio :: real
  minValueRatio :: real

definition default_config :: XYCutConfig where
  "default_config = \<lparr>direction = AUTO, minGapRatio = 0.05, minValueRatio = 0\<rparr>"

text \<open>\<open>static_cast<int>\<close> of a \<open>float\<close>: truncation toward zero.\<close>

definition to_int :: "real \<Rightarrow> int" where
  "to_int r = (if 0 \<le> r then \<lfloor>r\<rfloor> else \<lceil>r\<rceil>)"

section \<open>splitProjectionProfile\<close>

text \<open>The loop variables of \<open>splitProjectionProfile\<close>.\<close>

record split_state =
  segments :: "(int \<times> int) list"
  inSegment :: bool
  segStart :: int
  gapCount :: int

definition split_init :: split_state where
  "split_init = \<lparr>segments = [], inSegment = False, segStart = 0, gapCount = 0\<rparr>"

text \<open>
  One iteration of the loop body, at position \<open>i\<close> holding value \<open>v\<close>. The source
  increments \<open>gapCount\<close> first and then tests and uses the incremented value, written
  \<open>gapCount st + 1\<close> here.
\<close>

definition split_step :: "int \<Rightarrow> int \<Rightarrow> int \<Rightarrow> int \<Rightarrow> split_state \<Rightarrow> split_state" where
  "split_step minValue minGap i v st =
     (if v > minValue then
        (if \<not> inSegment st
         then st\<lparr>segStart := i, inSegment := True, gapCount := 0\<rparr>
         else st\<lparr>gapCount := 0\<rparr>)
      else
        (if inSegment st then
           (if gapCount st + 1 \<ge> minGap
            then st\<lparr>segments := segments st @ [(segStart st, i - (gapCount st + 1) + 1)],
                    inSegment := False, gapCount := 0\<rparr>
            else st\<lparr>gapCount := gapCount st + 1\<rparr>)
         else st))"

text \<open>The \<open>for\<close> loop over the remaining values, \<open>i\<close> being the current position.\<close>

fun split_loop :: "int \<Rightarrow> int \<Rightarrow> int list \<Rightarrow> int \<Rightarrow> split_state \<Rightarrow> split_state" where
  "split_loop minValue minGap [] i st = st"
| "split_loop minValue minGap (v # vs) i st =
     split_loop minValue minGap vs (i + 1) (split_step minValue minGap i v st)"

definition splitProjectionProfile :: "int list \<Rightarrow> int \<Rightarrow> int \<Rightarrow> (int \<times> int) list" where
  "splitProjectionProfile values minValue minGap =
     (let st = split_loop minValue minGap values 0 split_init
      in if inSegment st
         then segments st @ [(segStart st, int (length values))]
         else segments st)"

subsection \<open>Occupied pixels, closed segments and the loop invariant\<close>

text \<open>
  Pixel \<open>k\<close> of the histogram is \<^emph>\<open>occupied\<close> when it lies inside the histogram and its
  value is strictly greater than \<open>minValue\<close>; it is \<^emph>\<open>unoccupied\<close> when it lies inside
  and its value is at most \<open>minValue\<close>.
\<close>

definition occ :: "int list \<Rightarrow> int \<Rightarrow> int \<Rightarrow> bool" where
  "occ hist mv k \<longleftrightarrow> 0 \<le> k \<and> k < int (length hist) \<and> hist ! nat k > mv"

definition unocc :: "int list \<Rightarrow> int \<Rightarrow> int \<Rightarrow> bool" where
  "unocc hist mv k \<longleftrightarrow> 0 \<le> k \<and> k < int (length hist) \<and> hist ! nat k \<le> mv"

text \<open>
  A segment closed inside the loop: it starts and ends on occupied pixels and is followed
  by \<open>g\<close> unoccupied pixels.
\<close>

definition closed_seg :: "int list \<Rightarrow> int \<Rightarrow> int \<Rightarrow> int \<times> int \<Rightarrow> bool" where
  "closed_seg hist mv g se \<longleftrightarrow>
     0 \<le> fst se \<and> fst se < snd se \<and> occ hist mv (fst se) \<and> occ hist mv (snd se - 1) \<and>
     (\<forall>k. snd se \<le> k \<and> k < snd se + g \<longrightarrow> unocc hist mv k)"

text \<open>The loop invariant of \<open>splitProjectionProfile\<close> before position \<open>i\<close>.\<close>

definition split_inv :: "int list \<Rightarrow> int \<Rightarrow> int \<Rightarrow> int \<Rightarrow> split_state \<Rightarrow> bool" where
  "split_inv hist mv g i st \<longleftrightarrow>
     0 \<le> i \<and> i \<le> int (length hist) \<and>
     (\<forall>se \<in> set (segments st). closed_seg hist mv g se \<and> snd se + g \<le> i) \<and>
     sorted_wrt (\<lambda>a b. snd a + g \<le> fst b) (segments st) \<and>
     (\<forall>k. occ hist mv k \<and> k < i \<longrightarrow>
          (\<exists>se \<in> set (segments st). fst se \<le> k \<and> k < snd se) \<or>
          (inSegment st \<and> segStart st \<le> k)) \<and>
     (inSegment st \<longrightarrow>
          0 \<le> gapCount st \<and> gapCount st < g \<and> occ hist mv (segStart st) \<and>
          segStart st \<le> i - gapCount st - 1 \<and> occ hist mv (i - gapCount st - 1) \<and>
          (\<forall>k. i - gapCount st \<le> k \<and> k < i \<longrightarrow> unocc hist mv k) \<and>
          (\<forall>se \<in> set (segments st). snd se + g \<le> segStart st)) \<and>
     (\<not> inSegment st \<longrightarrow> gapCount st = 0)"

subsection \<open>The gap threshold, and two runs of the loop\<close>

text \<open>
  The gap threshold of \<open>recursiveXYCut\<close> and \<open>recursiveYXCut\<close>:
  \<open>std::max(1, static_cast<int>(page * config.minGapRatio))\<close>.
\<close>

definition min_gap :: "int \<Rightarrow> real \<Rightarrow> int" where
  "min_gap page ratio = max 1 (to_int (real_of_int page * ratio))"



section \<open>detectTextDirection\<close>

text \<open>
  The loop body of \<open>detectTextDirection\<close>: the pair is
  \<open>(horizontalCount, totalCount)\<close>.
\<close>

definition count_step :: "LayoutBox \<Rightarrow> int \<times> int \<Rightarrow> int \<times> int" where
  "count_step box cnt =
     (let w = width box; h = height box
      in if w > 0 \<and> h > 0
         then ((if w \<ge> h * 1.5 then fst cnt + 1 else fst cnt), snd cnt + 1)
         else cnt)"

definition detectTextDirection :: "LayoutBox list \<Rightarrow> TextDirection" where
  "detectTextDirection boxes =
     (if boxes = [] then HORIZONTAL
      else
        let cnt = fold count_step boxes (0, 0);
            horizontalCount = fst cnt;
            totalCount = snd cnt
        in if totalCount = 0 then HORIZONTAL
           else
             let ratio = real_of_int horizontalCount / real_of_int totalCount
             in if ratio \<ge> 0.5 then HORIZONTAL else VERTICAL)"



text \<open>A box with the given corners, for concrete inputs.\<close>

definition mk_box :: "real \<Rightarrow> real \<Rightarrow> real \<Rightarrow> real \<Rightarrow> LayoutBox" where
  "mk_box a b c d = \<lparr>x0 = a, y0 = b, x1 = c, y1 = d, category = TEXT, confidence = 1, index = 0\<rparr>"

section \<open>projectionByBboxes\<close>

text \<open>
  \<open>std::vector<int> projection(size, 0)\<close> throws \<open>std::length_error\<close> for a negative
  \<open>size\<close>; a write outside the vector is undefined behaviour and is an error of the
  model.
\<close>

datatype xy_error = LengthError | OutOfRange

definition inc_at :: "int list \<Rightarrow> int \<Rightarrow> xy_error + int list" where
  "inc_at projection i =
     (if 0 \<le> i \<and> i < int (length projection)
      then Inr (projection[nat i := projection ! nat i + 1])
      else Inl OutOfRange)"

function inc_range :: "int list \<Rightarrow> int \<Rightarrow> int \<Rightarrow> xy_error + int list" where
  "inc_range projection i e =
     (if i < e
      then (case inc_at projection i of
              Inl err \<Rightarrow> Inl err
            | Inr p \<Rightarrow> inc_range p (i + 1) e)
      else Inr projection)"
  by pat_completeness auto
termination
  by (relation "measure (\<lambda>(p, i, e). nat (e - i))") auto

declare inc_range.simps [simp del]

definition box_range :: "int \<Rightarrow> int \<Rightarrow> LayoutBox \<Rightarrow> int \<times> int" where
  "box_range axis sz box =
     (if axis = 0
      then (max 0 (to_int (x0 box)), min sz (to_int (x1 box)))
      else (max 0 (to_int (y0 box)), min sz (to_int (y1 box))))"

fun project_loop :: "LayoutBox list \<Rightarrow> int \<Rightarrow> int \<Rightarrow> int list \<Rightarrow> xy_error + int list" where
  "project_loop [] axis sz projection = Inr projection"
| "project_loop (box # boxes) axis sz projection =
     (case inc_range projection (fst (box_range axis sz box)) (snd (box_range axis sz box)) of
        Inl err \<Rightarrow> Inl err
      | Inr p \<Rightarrow> project_loop boxes axis sz p)"

definition projectionByBboxes :: "LayoutBox list \<Rightarrow> int \<Rightarrow> int \<Rightarrow> xy_error + int list" where
  "projectionByBboxes boxes axis sz =
     (if sz < 0 then Inl LengthError
      else project_loop boxes axis sz (replicate (nat sz) 0))"

text \<open>
  Box \<open>box\<close> covers pixel \<open>i\<close> when the inner loop of \<open>projectionByBboxes\<close> increments
  entry \<open>i\<close> for it; the coverage of a pixel is the number of boxes covering it.
\<close>

definition covers :: "int \<Rightarrow> int \<Rightarrow> LayoutBox \<Rightarrow> int \<Rightarrow> bool" where
  "covers axis sz box i \<longleftrightarrow>
     fst (box_range axis sz box) \<le> i \<and> i < snd (box_range axis sz box)"

definition coverage :: "LayoutBox list \<Rightarrow> int \<Rightarrow> int \<Rightarrow> int \<Rightarrow> int" where
  "coverage boxes axis sz i = int (length (filter (\<lambda>b. covers axis sz b i) boxes))"


section \<open>The parts of recursiveXYCut and recursiveYXCut\<close>

text \<open>
  The loop that gathers \<open>subBoxes\<close>: \<open>boxes[idx]\<close> for every index of the cluster. An
  index outside \<open>boxes\<close> is undefined behaviour in the source and an error of the model.
\<close>

fun gather :: "LayoutBox list \<Rightarrow> int list \<Rightarrow> xy_error + LayoutBox list" where
  "gather boxes [] = Inr []"
| "gather boxes (idx # rest) =
     (if 0 \<le> idx \<and> idx < int (length boxes)
      then (case gather boxes rest of
              Inl err \<Rightarrow> Inl err
            | Inr subBoxes \<Rightarrow> Inr (boxes ! nat idx # subBoxes))
      else Inl OutOfRange)"

text \<open>
  The test \<open>c >= seg.first && c < seg.second\<close> on a centre coordinate, the centre on an
  axis (\<open>0\<close> is X, anything else is Y, as in \<open>projectionByBboxes\<close>), and the loop that
  builds \<open>group\<close> for one segment: the four group loops of the source differ only in
  the axis of the centre. \<open>lo_on\<close> and \<open>hi_on\<close> are the low and high coordinates of a
  box on an axis.
\<close>

definition in_seg :: "real \<Rightarrow> int \<times> int \<Rightarrow> bool" where
  "in_seg c seg \<longleftrightarrow> real_of_int (fst seg) \<le> c \<and> c < real_of_int (snd seg)"

definition center_on :: "int \<Rightarrow> LayoutBox \<Rightarrow> real" where
  "center_on axis b = (if axis = 0 then center_x b else center_y b)"

definition group_by :: "int \<Rightarrow> int list \<Rightarrow> LayoutBox list \<Rightarrow> int \<times> int \<Rightarrow> int list" where
  "group_by axis indices subBoxes seg =
     map fst (filter (\<lambda>p. in_seg (center_on axis (snd p)) seg) (zip indices subBoxes))"

definition lo_on :: "int \<Rightarrow> LayoutBox \<Rightarrow> real" where
  "lo_on axis b = (if axis = 0 then x0 b else y0 b)"

definition hi_on :: "int \<Rightarrow> LayoutBox \<Rightarrow> real" where
  "hi_on axis b = (if axis = 0 then x1 b else y1 b)"

text \<open>
  \<open>std::sort\<close> is library code: the sorting routine is a parameter \<open>srt\<close> of the model,
  applied to the comparator and the index list. \<open>result\<close> is only ever appended to, so
  each function returns the indices it appends, and \<open>collect\<close> appends the results of
  the recursive calls of one loop in order (the first error aborts the loop).
\<close>

type_synonym sorter = "(int \<Rightarrow> int \<Rightarrow> bool) \<Rightarrow> int list \<Rightarrow> int list"

fun collect :: "(xy_error + int list) list \<Rightarrow> xy_error + int list" where
  "collect [] = Inr []"
| "collect (r # rs) =
     (case r of
        Inl err \<Rightarrow> Inl err
      | Inr xs \<Rightarrow> (case collect rs of Inl err \<Rightarrow> Inl err | Inr ys \<Rightarrow> Inr (xs @ ys)))"

text \<open>The comparators of the two leaf sorts.\<close>

definition xy_less :: "LayoutBox list \<Rightarrow> int \<Rightarrow> int \<Rightarrow> bool" where
  "xy_less boxes a b =
     (let ya = center_y (boxes ! nat a);
          yb = center_y (boxes ! nat b);
          threshold = min (height (boxes ! nat a)) (height (boxes ! nat b)) * 0.5
      in if \<bar>ya - yb\<bar> < threshold
         then center_x (boxes ! nat a) < center_x (boxes ! nat b)
         else ya < yb)"

definition yx_less :: "LayoutBox list \<Rightarrow> int \<Rightarrow> int \<Rightarrow> bool" where
  "yx_less boxes a b =
     (let xa = center_x (boxes ! nat a);
          xb = center_x (boxes ! nat b);
          threshold = min (width (boxes ! nat a)) (width (boxes ! nat b)) * 0.5
      in if \<bar>xa - xb\<bar> < threshold
         then center_y (boxes ! nat a) < center_y (boxes ! nat b)
         else xa > xb)"

subsection \<open>A sorting routine\<close>





text \<open>Two columns and a box of zero width between them.\<close>

definition drop_boxes :: "LayoutBox list" where
  "drop_boxes = [mk_box 0 0 4 10, mk_box 12 0 16 10, mk_box 8 2 8 6]"

section \<open>The leaf sort\<close>














text \<open>The largest number of a list, 0 for the empty list.\<close>

definition max_list :: "nat list \<Rightarrow> nat" where
  "max_list ns = fold max ns 0"

section \<open>Translation of the boxes\<close>








definition shift_seg :: "int \<Rightarrow> int \<times> int \<Rightarrow> int \<times> int" where
  "shift_seg d se = (fst se + d, snd se + d)"






section \<open>The loop invariant of splitProjectionProfile\<close>

lemma split_inv_init: "split_inv hist mv g 0 split_init"
  by (simp add: split_inv_def split_init_def occ_def)

lemma split_step_inv:
  assumes inv: "split_inv hist mv g i st" and i: "i < int (length hist)" and g: "g = max 1 mg"
  shows "split_inv hist mv g (i + 1) (split_step mv mg i (hist ! nat i) st)"
proof -
  let ?v = "hist ! nat i"
  from inv have i0: "0 \<le> i"
    and segs: "\<And>se. se \<in> set (segments st) \<Longrightarrow> closed_seg hist mv g se \<and> snd se + g \<le> i"
    and srt: "sorted_wrt (\<lambda>a b. snd a + g \<le> fst b) (segments st)"
    and cov: "\<And>k. occ hist mv k \<Longrightarrow> k < i \<Longrightarrow>
          (\<exists>se \<in> set (segments st). fst se \<le> k \<and> k < snd se) \<or> (inSegment st \<and> segStart st \<le> k)"
    and outS: "\<not> inSegment st \<Longrightarrow> gapCount st = 0"
    by (simp_all add: split_inv_def)
  from inv have inS: "inSegment st \<Longrightarrow>
          0 \<le> gapCount st \<and> gapCount st < g \<and> occ hist mv (segStart st) \<and>
          segStart st \<le> i - gapCount st - 1 \<and> occ hist mv (i - gapCount st - 1) \<and>
          (\<forall>k. i - gapCount st \<le> k \<and> k < i \<longrightarrow> unocc hist mv k) \<and>
          (\<forall>se \<in> set (segments st). snd se + g \<le> segStart st)"
    by (simp add: split_inv_def)
  have g1: "1 \<le> g" using g by simp
  have segs': "\<And>se. se \<in> set (segments st) \<Longrightarrow> closed_seg hist mv g se \<and> snd se + g \<le> i + 1"
    using segs by force
  show ?thesis
  proof (cases "?v > mv")
    case True
    then have occ_i: "occ hist mv i" using i i0 by (simp add: occ_def)
    show ?thesis
    proof (cases "inSegment st")
      case False
      have st': "split_step mv mg i ?v st = st\<lparr>segStart := i, inSegment := True, gapCount := 0\<rparr>"
        using True False by (simp add: split_step_def)
      have c: "\<And>k. occ hist mv k \<Longrightarrow> k < i + 1 \<Longrightarrow>
          (\<exists>se \<in> set (segments st). fst se \<le> k \<and> k < snd se) \<or> i \<le> k"
        using cov False by (metis not_less zless_add1_eq order_refl)
      have e: "\<And>se. se \<in> set (segments st) \<Longrightarrow> snd se + g \<le> i" using segs by blast
      show ?thesis unfolding st' split_inv_def
        using i0 i segs' srt c e g1 occ_i by auto
    next
      case inT: True
      have st': "split_step mv mg i ?v st = st\<lparr>gapCount := 0\<rparr>"
        using True inT by (simp add: split_step_def)
      have c: "\<And>k. occ hist mv k \<Longrightarrow> k < i + 1 \<Longrightarrow>
          (\<exists>se \<in> set (segments st). fst se \<le> k \<and> k < snd se) \<or> segStart st \<le> k"
      proof -
        fix k assume k: "occ hist mv k" "k < i + 1"
        show "(\<exists>se \<in> set (segments st). fst se \<le> k \<and> k < snd se) \<or> segStart st \<le> k"
        proof (cases "k < i")
          case True then show ?thesis using cov[OF k(1)] by blast
        next
          case False
          then have "k = i" using k(2) by simp
          then show ?thesis using inS[OF inT] by simp
        qed
      qed
      have s: "segStart st \<le> i" using inS[OF inT] by simp
      show ?thesis unfolding st' split_inv_def
        using i0 i segs' srt c g1 occ_i inS[OF inT] inT s by simp
    qed
  next
    case False
    then have un_i: "unocc hist mv i" using i i0 by (simp add: unocc_def)
    have nocc_i: "\<not> occ hist mv i" using False by (simp add: occ_def)
    have cov': "\<And>k. occ hist mv k \<Longrightarrow> k < i + 1 \<Longrightarrow> k < i"
      using nocc_i by (metis not_less zless_add1_eq order.not_eq_order_implies_strict)
    show ?thesis
    proof (cases "inSegment st")
      case inF: False
      have st': "split_step mv mg i ?v st = st"
        using False inF by (simp add: split_step_def)
      show ?thesis unfolding st' split_inv_def
        using i0 i segs' srt cov cov' outS inF by simp
    next
      case inT: True
      note I = inS[OF inT]
      show ?thesis
      proof (cases "gapCount st + 1 \<ge> mg")
        case stay: False
        have st': "split_step mv mg i ?v st = st\<lparr>gapCount := gapCount st + 1\<rparr>"
          using False inT stay by (simp add: split_step_def)
        have gg: "gapCount st + 1 < g" using stay g by simp
        have u: "\<And>k. i - gapCount st \<le> k \<Longrightarrow> k < i + 1 \<Longrightarrow> unocc hist mv k"
        proof -
          fix k assume "i - gapCount st \<le> k" "k < i + 1"
          then show "unocc hist mv k" using I un_i by (cases "k = i") auto
        qed
        show ?thesis unfolding st' split_inv_def
          using i0 i segs' srt cov cov' I inT gg u by simp
      next
        case close: True
        let ?e = "i - gapCount st"
        have st': "split_step mv mg i ?v st =
           st\<lparr>segments := segments st @ [(segStart st, ?e)], inSegment := False, gapCount := 0\<rparr>"
          using False inT close by (simp add: split_step_def)
        have "0 \<le> gapCount st" "gapCount st < max 1 mg" using I g by simp_all
        then have geq: "gapCount st + 1 = g" using close g by linarith
        have u: "\<And>k. ?e \<le> k \<Longrightarrow> k < ?e + g \<Longrightarrow> unocc hist mv k"
        proof -
          fix k assume "?e \<le> k" "k < ?e + g"
          then show "unocc hist mv k" using I un_i geq by (cases "k = i") auto
        qed
        have cs: "closed_seg hist mv g (segStart st, ?e)"
          unfolding closed_seg_def using I u by (simp add: occ_def)
        have all: "\<And>se. se \<in> set (segments st @ [(segStart st, ?e)]) \<Longrightarrow>
            closed_seg hist mv g se \<and> snd se + g \<le> i + 1"
          using segs' cs geq by auto
        have srt': "sorted_wrt (\<lambda>a b. snd a + g \<le> fst b) (segments st @ [(segStart st, ?e)])"
          using srt I by (simp add: sorted_wrt_append)
        have c: "\<And>k. occ hist mv k \<Longrightarrow> k < i + 1 \<Longrightarrow>
          (\<exists>se \<in> set (segments st @ [(segStart st, ?e)]). fst se \<le> k \<and> k < snd se)"
        proof -
          fix k assume k: "occ hist mv k" "k < i + 1"
          then have ki: "k < i" using cov' by blast
          have "\<not> unocc hist mv k" using k(1) by (simp add: occ_def unocc_def)
          then have "k < ?e" using I ki by (metis not_less)
          then show "\<exists>se \<in> set (segments st @ [(segStart st, ?e)]). fst se \<le> k \<and> k < snd se"
            using cov[OF k(1) ki] by auto
        qed
        show ?thesis unfolding st' split_inv_def
          using i0 i all srt' c by simp
      qed
    qed
  qed
qed

lemma split_loop_inv:
  assumes "split_inv hist mv g i st" and "drop (nat i) hist = vs" and "g = max 1 mg"
  shows "split_inv hist mv g (int (length hist)) (split_loop mv mg vs i st)"
  using assms
proof (induction vs arbitrary: i st)
  case Nil
  then have "0 \<le> i" "i \<le> int (length hist)" "length hist \<le> nat i" by (simp_all add: split_inv_def)
  then have "i = int (length hist)" by (simp add: le_nat_iff)
  then show ?case using Nil by simp
next
  case (Cons v vs)
  have i0: "0 \<le> i" using Cons.prems(1) by (simp add: split_inv_def)
  have lt: "nat i < length hist" using Cons.prems(2) by (cases "nat i < length hist") auto
  have "hist ! nat i # drop (Suc (nat i)) hist = v # vs"
    using Cons_nth_drop_Suc[OF lt] Cons.prems(2) by simp
  then have v: "hist ! nat i = v" and d0: "drop (Suc (nat i)) hist = vs" by simp_all
  have "nat (i + 1) = Suc (nat i)" using i0 by simp
  then have d: "drop (nat (i + 1)) hist = vs" using d0 by simp
  have "split_inv hist mv g (i + 1) (split_step mv mg i v st)"
    using split_step_inv[OF Cons.prems(1) _ Cons.prems(3)] lt i0 v by simp
  from Cons.IH[OF this d Cons.prems(3)] show ?case by simp
qed

subsection \<open>Properties of the returned segments\<close>

lemma split_final_inv:
  "split_inv hist mv (max 1 mg) (int (length hist)) (split_loop mv mg hist 0 split_init)"
  by (rule split_loop_inv[OF split_inv_init]) simp_all

lemma split_sorted:
  "sorted_wrt (\<lambda>a b. snd a + max 1 mg \<le> fst b) (splitProjectionProfile hist mv mg)"
  using split_final_inv[of hist mv mg]
  by (simp add: splitProjectionProfile_def Let_def split_inv_def sorted_wrt_append)

lemma split_range:
  assumes "se \<in> set (splitProjectionProfile hist mv mg)"
  shows "0 \<le> fst se \<and> fst se < snd se \<and> snd se \<le> int (length hist) \<and> occ hist mv (fst se)"
proof -
  let ?st = "split_loop mv mg hist 0 split_init"
  note I = split_final_inv[of hist mv mg, unfolded split_inv_def]
  show ?thesis
  proof (cases "se \<in> set (segments ?st)")
    case True
    then have "closed_seg hist mv (max 1 mg) se" "snd se + max 1 mg \<le> int (length hist)"
      using I by blast+
    then show ?thesis by (simp add: closed_seg_def)
  next
    case False
    then have in_s: "inSegment ?st" and se: "se = (segStart ?st, int (length hist))"
      using assms by (auto simp: splitProjectionProfile_def Let_def split: if_splits)
    from I in_s have "occ hist mv (segStart ?st)" by blast
    then show ?thesis using se by (simp add: occ_def)
  qed
qed

lemma split_closed:
  assumes "se \<in> set (splitProjectionProfile hist mv mg)" and "snd se < int (length hist)"
  shows "closed_seg hist mv (max 1 mg) se"
proof -
  let ?st = "split_loop mv mg hist 0 split_init"
  note I = split_final_inv[of hist mv mg, unfolded split_inv_def]
  have "se \<in> set (segments ?st)"
    using assms by (auto simp: splitProjectionProfile_def Let_def split: if_splits)
  then show ?thesis using I by blast
qed



lemma sorted_wrt_two:
  assumes "sorted_wrt P xs" "a \<in> set xs" "b \<in> set xs" "a \<noteq> b"
  shows "P a b \<or> P b a"
  using assms by (induction xs) auto



subsection \<open>Two runs with different gap thresholds\<close>







subsection \<open>Concrete runs\<close>

lemma split_eval_a: "splitProjectionProfile [1,1,0,0,1,0] 0 2 = [(0,2),(4,6)]"
  by (simp add: splitProjectionProfile_def split_init_def split_step_def)


section \<open>detectTextDirection is a majority vote\<close>




section \<open>The projection counts the covering boxes\<close>

lemma inc_range_ok:
  assumes "0 \<le> i" "e \<le> int (length p)"
  shows "\<exists>p'. inc_range p i e = Inr p' \<and> length p' = length p \<and>
          (\<forall>k. 0 \<le> k \<and> k < int (length p) \<longrightarrow>
               p' ! nat k = p ! nat k + (if i \<le> k \<and> k < e then 1 else 0))"
  using assms
proof (induction p i e rule: inc_range.induct)
  case (1 p i e)
  show ?case
  proof (cases "i < e")
    case False
    then show ?thesis by (simp add: inc_range.simps)
  next
    case True
    let ?q = "p[nat i := p ! nat i + 1]"
    have at: "inc_at p i = Inr ?q" using True "1.prems" by (simp add: inc_at_def)
    have "\<exists>p'. inc_range ?q (i + 1) e = Inr p' \<and> length p' = length ?q \<and>
          (\<forall>k. 0 \<le> k \<and> k < int (length ?q) \<longrightarrow>
               p' ! nat k = ?q ! nat k + (if i + 1 \<le> k \<and> k < e then 1 else 0))"
      using "1.IH"[OF True at] "1.prems" by simp
    then obtain p' where p': "inc_range ?q (i + 1) e = Inr p'" "length p' = length p"
      and v: "\<And>k. 0 \<le> k \<Longrightarrow> k < int (length p) \<Longrightarrow>
               p' ! nat k = ?q ! nat k + (if i + 1 \<le> k \<and> k < e then 1 else 0)"
      by auto
    have r: "inc_range p i e = Inr p'"
      using True at p'(1) by (subst inc_range.simps) simp
    have "\<And>k. 0 \<le> k \<Longrightarrow> k < int (length p) \<Longrightarrow>
               p' ! nat k = p ! nat k + (if i \<le> k \<and> k < e then 1 else 0)"
    proof -
      fix k :: int assume k: "0 \<le> k" "k < int (length p)"
      show "p' ! nat k = p ! nat k + (if i \<le> k \<and> k < e then 1 else 0)"
      proof (cases "k = i")
        case True
        then show ?thesis using v[OF k] k \<open>i < e\<close> by simp
      next
        case False
        then have "nat k \<noteq> nat i" using k "1.prems"(1) by simp
        then show ?thesis using v[OF k] False by auto
      qed
    qed
    then show ?thesis using r p'(2) by blast
  qed
qed

lemma box_range_bounds:
  "0 \<le> fst (box_range axis sz box)" "snd (box_range axis sz box) \<le> sz"
  by (simp_all add: box_range_def)

lemma project_loop_ok:
  assumes "int (length p) = sz"
  shows "\<exists>p'. project_loop boxes axis sz p = Inr p' \<and> length p' = length p \<and>
          (\<forall>k. 0 \<le> k \<and> k < sz \<longrightarrow> p' ! nat k = p ! nat k + coverage boxes axis sz k)"
  using assms
proof (induction boxes arbitrary: p)
  case Nil
  then show ?case by (simp add: coverage_def)
next
  case (Cons box boxes)
  let ?s = "fst (box_range axis sz box)" and ?e = "snd (box_range axis sz box)"
  have "?e \<le> int (length p)" using box_range_bounds(2)[of axis sz box] Cons.prems by simp
  from inc_range_ok[OF box_range_bounds(1) this]
  obtain q where q: "inc_range p ?s ?e = Inr q" "length q = length p"
    and qv: "\<And>k. 0 \<le> k \<Longrightarrow> k < int (length p) \<Longrightarrow>
               q ! nat k = p ! nat k + (if ?s \<le> k \<and> k < ?e then 1 else 0)"
    by blast
  have "int (length q) = sz" using q(2) Cons.prems by simp
  from Cons.IH[OF this]
  obtain p' where p': "project_loop boxes axis sz q = Inr p'" "length p' = length q"
    and pv: "\<And>k. 0 \<le> k \<Longrightarrow> k < sz \<Longrightarrow> p' ! nat k = q ! nat k + coverage boxes axis sz k"
    by blast
  have r: "project_loop (box # boxes) axis sz p = Inr p'" using q(1) p'(1) by simp
  have "\<And>k. 0 \<le> k \<Longrightarrow> k < sz \<Longrightarrow>
          p' ! nat k = p ! nat k + coverage (box # boxes) axis sz k"
  proof -
    fix k :: int assume k: "0 \<le> k" "k < sz"
    have "k < int (length p)" using k Cons.prems by simp
    from qv[OF k(1) this] pv[OF k]
    show "p' ! nat k = p ! nat k + coverage (box # boxes) axis sz k"
      by (simp add: coverage_def covers_def)
  qed
  then show ?case using r p'(2) q(2) by auto
qed

lemma projection_ok:
  assumes "0 \<le> sz"
  shows "\<exists>proj. projectionByBboxes boxes axis sz = Inr proj \<and> int (length proj) = sz \<and>
          (\<forall>k. 0 \<le> k \<and> k < sz \<longrightarrow> proj ! nat k = coverage boxes axis sz k)"
proof -
  have "int (length (replicate (nat sz) (0::int))) = sz" using assms by simp
  from project_loop_ok[OF this, of boxes axis]
  show ?thesis using assms by (auto simp: projectionByBboxes_def)
qed



section \<open>Every group of a split is smaller than the cluster\<close>

lemma gather_length: "gather boxes indices = Inr sub \<Longrightarrow> length sub = length indices"
  by (induction indices arbitrary: sub) (auto split: if_splits sum.splits)

lemma to_int_le: "0 \<le> r \<Longrightarrow> real_of_int (to_int r) \<le> r"
  by (simp add: to_int_def)

lemma to_int_nonpos: "r < 0 \<Longrightarrow> to_int r \<le> 0"
  by (simp add: to_int_def ceiling_le_iff)

lemma to_int_less_imp: "to_int r \<le> k \<Longrightarrow> 0 \<le> k \<Longrightarrow> r < real_of_int k + 1"
  unfolding to_int_def by (auto split: if_splits simp: floor_le_iff)

lemma to_int_lower: "real_of_int k \<le> r \<Longrightarrow> 0 \<le> k \<Longrightarrow> k \<le> to_int r"
  unfolding to_int_def by (auto simp: le_floor_iff)

lemma to_int_upper: "r < real_of_int k \<Longrightarrow> 0 \<le> k \<Longrightarrow> to_int r \<le> k"
  unfolding to_int_def by (auto simp: floor_le_iff ceiling_le_iff)

lemma to_int_gt: "k < to_int r \<Longrightarrow> 0 \<le> k \<Longrightarrow> real_of_int k + 1 \<le> r"
proof -
  assume a: "k < to_int r" "0 \<le> k"
  then have "0 < to_int r" by simp
  then have "0 \<le> r" unfolding to_int_def by (auto split: if_splits simp: less_ceiling_iff)
  then have "real_of_int (to_int r) \<le> r" by (rule to_int_le)
  moreover have "real_of_int k + 1 \<le> real_of_int (to_int r)" using a(1) by linarith
  ultimately show ?thesis by linarith
qed

lemma covers_alt:
  "covers axis sz b i \<longleftrightarrow> max 0 (to_int (lo_on axis b)) \<le> i \<and> i < min sz (to_int (hi_on axis b))"
  by (simp add: covers_def box_range_def lo_on_def hi_on_def)

lemma center_on_alt: "center_on axis b = (lo_on axis b + hi_on axis b) / 2"
  by (simp add: center_on_def lo_on_def hi_on_def center_x_def center_y_def)

lemma cover_right:
  assumes c: "center_on axis b < real_of_int e" and p: "covers axis sz b p" and ep: "e \<le> p" and e0: "0 \<le> e"
  shows "covers axis sz b e"
proof -
  from p have p1: "p < to_int (hi_on axis b)" and p2: "p < sz" and p0: "0 \<le> p"
    by (simp_all add: covers_alt)
  from to_int_gt[OF p1 p0] have hi: "real_of_int p + 1 \<le> hi_on axis b" .
  have lo: "lo_on axis b < real_of_int e" using c hi ep by (simp add: center_on_alt)
  have "to_int (lo_on axis b) \<le> e" by (rule to_int_upper[OF lo e0])
  then show ?thesis using p1 p2 ep e0 by (simp add: covers_alt)
qed

lemma cover_left:
  assumes c: "real_of_int s \<le> center_on axis b" and p: "covers axis sz b (q - 1)" and qs: "q < s" and qz: "q < sz"
  shows "covers axis sz b q"
proof -
  from p have p1: "to_int (lo_on axis b) \<le> q - 1" and q0: "0 \<le> q - 1"
    by (simp_all add: covers_alt)
  from to_int_less_imp[OF p1 q0] have lo: "lo_on axis b < real_of_int q" by simp
  have "real_of_int q + 1 \<le> real_of_int s" using qs by linarith
  then have hi: "real_of_int q + 1 \<le> hi_on axis b" using c lo by (simp add: center_on_alt)
  have "q + 1 \<le> to_int (hi_on axis b)" using to_int_lower[of "q + 1" "hi_on axis b"] hi q0 by simp
  then show ?thesis using p1 q0 qz by (simp add: covers_alt)
qed

lemma coverage_mono:
  assumes "\<And>b. b \<in> set bs \<Longrightarrow> covers axis sz b p \<Longrightarrow> covers axis sz b q"
  shows "coverage bs axis sz p \<le> coverage bs axis sz q"
  using assms unfolding coverage_def
  by (induction bs) auto

lemma sorted_wrt_other:
  assumes "sorted_wrt P xs" "\<And>x. x \<in> set xs \<Longrightarrow> \<not> P x x" "1 < length xs" "x \<in> set xs"
  shows "\<exists>y \<in> set xs. y \<noteq> x"
proof -
  obtain a b rest where xs: "xs = a # b # rest"
    using assms(3) by (cases xs; cases "tl xs") auto
  then have "P a b" using assms(1) by simp
  then have "a \<noteq> b" using assms(2)[of a] xs by auto
  then show ?thesis using xs by (cases "a = x") auto
qed

lemma not_all_in_one_segment:
  assumes proj: "projectionByBboxes sub axis sz = Inr proj"
    and seg: "seg \<in> set (splitProjectionProfile proj mv mg)"
    and many: "1 < length (splitProjectionProfile proj mv mg)"
  shows "\<exists>b \<in> set sub. \<not> in_seg (center_on axis b) seg"
proof (rule ccontr)
  assume "\<not> ?thesis"
  then have all: "\<And>b. b \<in> set sub \<Longrightarrow> in_seg (center_on axis b) seg" by blast
  let ?segs = "splitProjectionProfile proj mv mg"
  let ?g = "max 1 mg"
  have sz0: "0 \<le> sz" using proj by (auto simp: projectionByBboxes_def split: if_splits)
  from projection_ok[OF sz0, of sub axis] proj
  have len: "int (length proj) = sz"
    and val: "\<And>k. 0 \<le> k \<Longrightarrow> k < sz \<Longrightarrow> proj ! nat k = coverage sub axis sz k"
    by auto
  have irr: "\<And>x. x \<in> set ?segs \<Longrightarrow> \<not> (snd x + ?g \<le> fst x)"
    using split_range by force
  from sorted_wrt_other[OF split_sorted[of mg proj mv] irr many seg]
  obtain seg' where seg': "seg' \<in> set ?segs" "seg' \<noteq> seg" by blast
  from sorted_wrt_two[OF split_sorted[of mg proj mv] seg seg'(1)] seg'(2)
  have "snd seg + ?g \<le> fst seg' \<or> snd seg' + ?g \<le> fst seg" by blast
  then show False
  proof
    assume later: "snd seg + ?g \<le> fst seg'"
    let ?e = "snd seg" and ?p = "fst seg'"
    have r: "0 \<le> fst seg" "fst seg < snd seg" using split_range[OF seg] by simp_all
    have r': "fst seg' < snd seg'" "snd seg' \<le> int (length proj)" "occ proj mv (fst seg')"
      using split_range[OF seg'(1)] by simp_all
    have "?e < int (length proj)" using later r' by simp
    from split_closed[OF seg this] have un: "unocc proj mv ?e" by (simp add: closed_seg_def)
    have ep: "?e \<le> ?p" using later by simp
    have e0: "0 \<le> ?e" using r by simp
    have "coverage sub axis sz ?p \<le> coverage sub axis sz ?e"
    proof (rule coverage_mono)
      fix b assume b: "b \<in> set sub" "covers axis sz b ?p"
      have "center_on axis b < real_of_int ?e" using all[OF b(1)] by (simp add: in_seg_def)
      from cover_right[OF this b(2) ep e0] show "covers axis sz b ?e" .
    qed
    moreover have "proj ! nat ?p = coverage sub axis sz ?p"
      using val[of ?p] r'(3) len by (simp add: occ_def)
    moreover have "proj ! nat ?e = coverage sub axis sz ?e"
      using val[of ?e] un len by (simp add: unocc_def)
    ultimately show False using un r'(3) by (simp add: occ_def unocc_def)
  next
    assume earlier: "snd seg' + ?g \<le> fst seg"
    let ?q = "snd seg'" and ?s = "fst seg"
    have r: "fst seg < snd seg" "snd seg \<le> int (length proj)" using split_range[OF seg] by simp_all
    have lt: "?q < int (length proj)" using earlier r by simp
    from split_closed[OF seg'(1) lt] have un: "unocc proj mv ?q" and oc: "occ proj mv (?q - 1)"
      by (simp_all add: closed_seg_def)
    have qs: "?q < ?s" using earlier by simp
    have qz: "?q < sz" using lt len by simp
    have "coverage sub axis sz (?q - 1) \<le> coverage sub axis sz ?q"
    proof (rule coverage_mono)
      fix b assume b: "b \<in> set sub" "covers axis sz b (?q - 1)"
      have "real_of_int ?s \<le> center_on axis b" using all[OF b(1)] by (simp add: in_seg_def)
      from cover_left[OF this b(2) qs qz] show "covers axis sz b ?q" .
    qed
    moreover have "proj ! nat (?q - 1) = coverage sub axis sz (?q - 1)"
      using val[of "?q - 1"] oc len by (simp add: occ_def)
    moreover have "proj ! nat ?q = coverage sub axis sz ?q"
      using val[of ?q] un len by (simp add: unocc_def)
    ultimately show False using un oc by (simp add: occ_def unocc_def)
  qed
qed

lemma group_smaller:
  assumes proj: "projectionByBboxes sub axis sz = Inr proj"
    and seg: "seg \<in> set (splitProjectionProfile proj mv mg)"
    and many: "1 < length (splitProjectionProfile proj mv mg)"
    and len: "length sub = length indices"
  shows "length (group_by axis indices sub seg) < length indices"
proof -
  from not_all_in_one_segment[OF proj seg many]
  obtain b where b: "b \<in> set sub" "\<not> in_seg (center_on axis b) seg" by blast
  then obtain idx where "(idx, b) \<in> set (zip indices sub)"
    using len by (metis in_set_impl_in_set_zip2)
  then have "length (filter (\<lambda>p. in_seg (center_on axis (snd p)) seg) (zip indices sub))
               < length (zip indices sub)"
    using b(2) by (intro length_filter_less[of "(idx, b)"]) auto
  then show ?thesis using len by (simp add: group_by_def)
qed

section \<open>recursiveXYCut, recursiveYXCut and xycutPlusSort\<close>

text \<open>
  Both functions recurse on groups of the cluster; their termination proofs rest on the
  decrease of the group size shown above.
\<close>

function recursiveXYCut ::
  "sorter \<Rightarrow> LayoutBox list \<Rightarrow> int list \<Rightarrow> int \<Rightarrow> int \<Rightarrow> XYCutConfig \<Rightarrow> xy_error + int list" where
  "recursiveXYCut srt boxes indices pageWidth pageHeight config =
     (if indices = [] then Inr []
      else if length indices = 1 then Inr [hd indices]
      else
        case gather boxes indices of
          Inl err \<Rightarrow> Inl err
        | Inr subBoxes \<Rightarrow>
            let minGapX = min_gap pageWidth (minGapRatio config);
                minGapY = min_gap pageHeight (minGapRatio config);
                minVal = to_int (minValueRatio config)
            in
              case projectionByBboxes subBoxes 0 pageWidth of
                Inl err \<Rightarrow> Inl err
              | Inr xProj \<Rightarrow>
                  let xSegments = splitProjectionProfile xProj minVal minGapX
                  in
                    if length xSegments > 1
                    then collect (map (\<lambda>seg. recursiveXYCut srt boxes
                                         (group_by 0 indices subBoxes seg)
                                         pageWidth pageHeight config) xSegments)
                    else
                      case projectionByBboxes subBoxes 1 pageHeight of
                        Inl err \<Rightarrow> Inl err
                      | Inr yProj \<Rightarrow>
                          let ySegments = splitProjectionProfile yProj minVal minGapY
                          in
                            if length ySegments > 1
                            then collect (map (\<lambda>seg. recursiveXYCut srt boxes
                                                 (group_by 1 indices subBoxes seg)
                                                 pageWidth pageHeight config) ySegments)
                            else Inr (srt (xy_less boxes) indices))"
  by pat_completeness auto
termination
proof (relation "measure (\<lambda>(srt, boxes, indices, pageWidth, pageHeight, config). length indices)")
  show "wf (measure (\<lambda>(srt, boxes, indices, pageWidth, pageHeight, config). length indices))"
    by simp
qed (auto intro: group_smaller gather_length)

function recursiveYXCut ::
  "sorter \<Rightarrow> LayoutBox list \<Rightarrow> int list \<Rightarrow> int \<Rightarrow> int \<Rightarrow> XYCutConfig \<Rightarrow> xy_error + int list" where
  "recursiveYXCut srt boxes indices pageWidth pageHeight config =
     (if indices = [] then Inr []
      else if length indices = 1 then Inr [hd indices]
      else
        case gather boxes indices of
          Inl err \<Rightarrow> Inl err
        | Inr subBoxes \<Rightarrow>
            let minGapX = min_gap pageWidth (minGapRatio config);
                minGapY = min_gap pageHeight (minGapRatio config);
                minVal = to_int (minValueRatio config)
            in
              case projectionByBboxes subBoxes 1 pageHeight of
                Inl err \<Rightarrow> Inl err
              | Inr yProj \<Rightarrow>
                  let ySegments = splitProjectionProfile yProj minVal minGapY
                  in
                    if length ySegments > 1
                    then collect (map (\<lambda>seg. recursiveYXCut srt boxes
                                         (group_by 1 indices subBoxes seg)
                                         pageWidth pageHeight config) ySegments)
                    else
                      case projectionByBboxes subBoxes 0 pageWidth of
                        Inl err \<Rightarrow> Inl err
                      | Inr xProj \<Rightarrow>
                          let xSegments = splitProjectionProfile xProj minVal minGapX
                          in
                            if length xSegments > 1
                            then collect (map (\<lambda>seg. recursiveYXCut srt boxes
                                                 (group_by 0 indices subBoxes seg)
                                                 pageWidth pageHeight config) xSegments)
                            else Inr (srt (yx_less boxes) indices))"
  by pat_completeness auto
termination
proof (relation "measure (\<lambda>(srt, boxes, indices, pageWidth, pageHeight, config). length indices)")
  show "wf (measure (\<lambda>(srt, boxes, indices, pageWidth, pageHeight, config). length indices))"
    by simp
qed (auto intro: group_smaller gather_length)

declare recursiveXYCut.simps [simp del]

declare recursiveYXCut.simps [simp del]

definition xycutPlusSort ::
  "sorter \<Rightarrow> LayoutBox list \<Rightarrow> int \<Rightarrow> int \<Rightarrow> XYCutConfig \<Rightarrow> xy_error + int list" where
  "xycutPlusSort srt boxes pageWidth pageHeight config =
     (if boxes = [] then Inr []
      else
        let indices = map int [0..<length boxes];
            dir = (if direction config = AUTO then detectTextDirection boxes else direction config)
        in if dir = HORIZONTAL
           then recursiveXYCut srt boxes indices pageWidth pageHeight config
           else recursiveYXCut srt boxes indices pageWidth pageHeight config)"

text \<open>
  The number of nested recursive calls below a call of \<open>recursiveXYCut\<close> and of
  \<open>recursiveYXCut\<close>: the same case analysis as the functions themselves, counting one
  for every split.
\<close>

function xy_depth :: "LayoutBox list \<Rightarrow> int list \<Rightarrow> int \<Rightarrow> int \<Rightarrow> XYCutConfig \<Rightarrow> nat" where
  "xy_depth boxes indices pageWidth pageHeight config =
     (if indices = [] then 0
      else if length indices = 1 then 0
      else
        case gather boxes indices of
          Inl err \<Rightarrow> 0
        | Inr subBoxes \<Rightarrow>
            let minGapX = min_gap pageWidth (minGapRatio config);
                minGapY = min_gap pageHeight (minGapRatio config);
                minVal = to_int (minValueRatio config)
            in
              case projectionByBboxes subBoxes 0 pageWidth of
                Inl err \<Rightarrow> 0
              | Inr xProj \<Rightarrow>
                  let xSegments = splitProjectionProfile xProj minVal minGapX
                  in
                    if length xSegments > 1
                    then 1 + max_list (map (\<lambda>seg. xy_depth boxes
                                              (group_by 0 indices subBoxes seg)
                                              pageWidth pageHeight config) xSegments)
                    else
                      case projectionByBboxes subBoxes 1 pageHeight of
                        Inl err \<Rightarrow> 0
                      | Inr yProj \<Rightarrow>
                          let ySegments = splitProjectionProfile yProj minVal minGapY
                          in
                            if length ySegments > 1
                            then 1 + max_list (map (\<lambda>seg. xy_depth boxes
                                                      (group_by 1 indices subBoxes seg)
                                                      pageWidth pageHeight config) ySegments)
                            else 0)"
  by pat_completeness auto
termination
proof (relation "measure (\<lambda>(boxes, indices, pageWidth, pageHeight, config). length indices)")
  show "wf (measure (\<lambda>(boxes, indices, pageWidth, pageHeight, config). length indices))"
    by simp
qed (auto intro: group_smaller gather_length)

function yx_depth :: "LayoutBox list \<Rightarrow> int list \<Rightarrow> int \<Rightarrow> int \<Rightarrow> XYCutConfig \<Rightarrow> nat" where
  "yx_depth boxes indices pageWidth pageHeight config =
     (if indices = [] then 0
      else if length indices = 1 then 0
      else
        case gather boxes indices of
          Inl err \<Rightarrow> 0
        | Inr subBoxes \<Rightarrow>
            let minGapX = min_gap pageWidth (minGapRatio config);
                minGapY = min_gap pageHeight (minGapRatio config);
                minVal = to_int (minValueRatio config)
            in
              case projectionByBboxes subBoxes 1 pageHeight of
                Inl err \<Rightarrow> 0
              | Inr yProj \<Rightarrow>
                  let ySegments = splitProjectionProfile yProj minVal minGapY
                  in
                    if length ySegments > 1
                    then 1 + max_list (map (\<lambda>seg. yx_depth boxes
                                              (group_by 1 indices subBoxes seg)
                                              pageWidth pageHeight config) ySegments)
                    else
                      case projectionByBboxes subBoxes 0 pageWidth of
                        Inl err \<Rightarrow> 0
                      | Inr xProj \<Rightarrow>
                          let xSegments = splitProjectionProfile xProj minVal minGapX
                          in
                            if length xSegments > 1
                            then 1 + max_list (map (\<lambda>seg. yx_depth boxes
                                                      (group_by 0 indices subBoxes seg)
                                                      pageWidth pageHeight config) xSegments)
                            else 0)"
  by pat_completeness auto
termination
proof (relation "measure (\<lambda>(boxes, indices, pageWidth, pageHeight, config). length indices)")
  show "wf (measure (\<lambda>(boxes, indices, pageWidth, pageHeight, config). length indices))"
    by simp
qed (auto intro: group_smaller gather_length)

declare xy_depth.simps [simp del]

declare yx_depth.simps [simp del]

section \<open>A run that loses a box\<close>

lemma drop_detect: "detectTextDirection drop_boxes = VERTICAL"
  by (simp add: drop_boxes_def detectTextDirection_def count_step_def mk_box_def width_def height_def)

lemma drop_gather: "gather drop_boxes [0, 1, 2] = Inr drop_boxes"
  by (simp add: drop_boxes_def)

lemma drop_yproj:
  "projectionByBboxes drop_boxes 1 20 = Inr [2,2,3,3,3,3,2,2,2,2,0,0,0,0,0,0,0,0,0,0]"
  by (simp add: drop_boxes_def projectionByBboxes_def box_range_def mk_box_def to_int_def
      inc_range.simps inc_at_def eval_nat_numeral)

lemma drop_xproj:
  "projectionByBboxes drop_boxes 0 20 = Inr [1,1,1,1,0,0,0,0,0,0,0,0,1,1,1,1,0,0,0,0]"
  by (simp add: drop_boxes_def projectionByBboxes_def box_range_def mk_box_def to_int_def
      inc_range.simps inc_at_def eval_nat_numeral)

lemma drop_ysegs:
  "splitProjectionProfile [2,2,3,3,3,3,2,2,2,2,0,0,0,0,0,0,0,0,0,0] 0 1 = [(0, 10)]"
  by (simp add: splitProjectionProfile_def split_init_def split_step_def)

lemma drop_xsegs:
  "splitProjectionProfile [1,1,1,1,0,0,0,0,0,0,0,0,1,1,1,1,0,0,0,0] 0 1 = [(0, 4), (12, 16)]"
  by (simp add: splitProjectionProfile_def split_init_def split_step_def)

lemma drop_groups:
  "group_by 0 [0, 1, 2] drop_boxes (0, 4) = [0]"
  "group_by 0 [0, 1, 2] drop_boxes (12, 16) = [1]"
  by (simp_all add: group_by_def drop_boxes_def in_seg_def center_on_def center_x_def mk_box_def)

lemma cfg_gap: "min_gap 20 (minGapRatio default_config) = 1" "to_int (minValueRatio default_config) = 0"
  by (simp_all add: min_gap_def default_config_def to_int_def)

lemma cut_singleton: "recursiveYXCut srt boxes [i] w h c = Inr [i]"
  by (subst recursiveYXCut.simps) simp

section \<open>The insertion sort meets the contract\<close>









section \<open>What a leaf emits\<close>




















section \<open>The recursion depth\<close>

lemma fold_max_le: "(\<And>x. x \<in> set ns \<Longrightarrow> x \<le> m) \<Longrightarrow> a \<le> m \<Longrightarrow> fold max ns a \<le> (m::nat)"
  by (induction ns arbitrary: a) auto

lemma max_list_le: "(\<And>x. x \<in> set ns \<Longrightarrow> x \<le> m) \<Longrightarrow> max_list ns \<le> m"
  unfolding max_list_def by (rule fold_max_le) auto

lemma depth_step:
  assumes "1 \<le> n"
    and "\<And>seg. seg \<in> set segs \<Longrightarrow> d seg \<le> length (g seg)"
    and "\<And>seg. seg \<in> set segs \<Longrightarrow> length (g seg) < n"
  shows "1 + max_list (map d segs) \<le> n"
proof -
  have "max_list (map d segs) \<le> n - 1"
    by (rule max_list_le) (use assms in force)
  then show ?thesis using assms(1) by simp
qed

lemma xy_depth_le: "xy_depth boxes indices pageWidth pageHeight config \<le> length indices"
proof (induction boxes indices pageWidth pageHeight config rule: xy_depth.induct)
  case (1 boxes indices pageWidth pageHeight config)
  let ?mv = "to_int (minValueRatio config)"
  show ?case
  proof (cases "indices = [] \<or> length indices = 1")
    case True
    then show ?thesis by (subst xy_depth.simps) auto
  next
    case False
    then have n1: "1 \<le> length indices" by (cases indices) auto
    show ?thesis
    proof (cases "gather boxes indices")
      case (Inl err)
      then show ?thesis using False by (subst xy_depth.simps) simp
    next
      case (Inr sub)
      note len = gather_length[OF Inr]
      show ?thesis
      proof (cases "projectionByBboxes sub 0 pageWidth")
        case (Inl err)
        then show ?thesis using False Inr by (subst xy_depth.simps) simp
      next
        case p1: (Inr proj1)
        let ?s1 = "splitProjectionProfile proj1 ?mv (min_gap pageWidth (minGapRatio config))"
        show ?thesis
        proof (cases "1 < length ?s1")
          case True
          have eq: "xy_depth boxes indices pageWidth pageHeight config =
              1 + max_list (map (\<lambda>seg. xy_depth boxes (group_by 0 indices sub seg)
                                   pageWidth pageHeight config) ?s1)"
            using False Inr p1 True by (subst xy_depth.simps) (simp add: Let_def)
          have ih: "\<And>seg. seg \<in> set ?s1 \<Longrightarrow>
              xy_depth boxes (group_by 0 indices sub seg) pageWidth pageHeight config
                \<le> length (group_by 0 indices sub seg)"
            using False Inr p1 True by (intro "1.IH"(1)) auto
          have sm: "\<And>seg. seg \<in> set ?s1 \<Longrightarrow> length (group_by 0 indices sub seg) < length indices"
            using group_smaller[OF p1 _ True len] by blast
          show ?thesis unfolding eq by (rule depth_step[OF n1 ih sm])
        next
          case one: False
          show ?thesis
          proof (cases "projectionByBboxes sub 1 pageHeight")
            case (Inl err)
            then show ?thesis using False Inr p1 one by (subst xy_depth.simps) (simp add: Let_def)
          next
            case p2: (Inr proj2)
            let ?s2 = "splitProjectionProfile proj2 ?mv (min_gap pageHeight (minGapRatio config))"
            show ?thesis
            proof (cases "1 < length ?s2")
              case True
              have eq: "xy_depth boxes indices pageWidth pageHeight config =
                  1 + max_list (map (\<lambda>seg. xy_depth boxes (group_by 1 indices sub seg)
                                       pageWidth pageHeight config) ?s2)"
                using False Inr p1 one p2 True by (subst xy_depth.simps) (simp add: Let_def)
              have ih: "\<And>seg. seg \<in> set ?s2 \<Longrightarrow>
                  xy_depth boxes (group_by 1 indices sub seg) pageWidth pageHeight config
                    \<le> length (group_by 1 indices sub seg)"
                using False Inr p1 one p2 True by (intro "1.IH"(2)) auto
              have sm: "\<And>seg. seg \<in> set ?s2 \<Longrightarrow> length (group_by 1 indices sub seg) < length indices"
                using group_smaller[OF p2 _ True len] by blast
              show ?thesis unfolding eq by (rule depth_step[OF n1 ih sm])
            next
              case False2: False
              show ?thesis using False Inr p1 one p2 False2
                by (subst xy_depth.simps) (simp add: Let_def)
            qed
          qed
        qed
      qed
    qed
  qed
qed

lemma yx_depth_le: "yx_depth boxes indices pageWidth pageHeight config \<le> length indices"
proof (induction boxes indices pageWidth pageHeight config rule: yx_depth.induct)
  case (1 boxes indices pageWidth pageHeight config)
  let ?mv = "to_int (minValueRatio config)"
  show ?case
  proof (cases "indices = [] \<or> length indices = 1")
    case True
    then show ?thesis by (subst yx_depth.simps) auto
  next
    case False
    then have n1: "1 \<le> length indices" by (cases indices) auto
    show ?thesis
    proof (cases "gather boxes indices")
      case (Inl err)
      then show ?thesis using False by (subst yx_depth.simps) simp
    next
      case (Inr sub)
      note len = gather_length[OF Inr]
      show ?thesis
      proof (cases "projectionByBboxes sub 1 pageHeight")
        case (Inl err)
        then show ?thesis using False Inr by (subst yx_depth.simps) simp
      next
        case p1: (Inr proj1)
        let ?s1 = "splitProjectionProfile proj1 ?mv (min_gap pageHeight (minGapRatio config))"
        show ?thesis
        proof (cases "1 < length ?s1")
          case True
          have eq: "yx_depth boxes indices pageWidth pageHeight config =
              1 + max_list (map (\<lambda>seg. yx_depth boxes (group_by 1 indices sub seg)
                                   pageWidth pageHeight config) ?s1)"
            using False Inr p1 True by (subst yx_depth.simps) (simp add: Let_def)
          have ih: "\<And>seg. seg \<in> set ?s1 \<Longrightarrow>
              yx_depth boxes (group_by 1 indices sub seg) pageWidth pageHeight config
                \<le> length (group_by 1 indices sub seg)"
            using False Inr p1 True by (intro "1.IH"(1)) auto
          have sm: "\<And>seg. seg \<in> set ?s1 \<Longrightarrow> length (group_by 1 indices sub seg) < length indices"
            using group_smaller[OF p1 _ True len] by blast
          show ?thesis unfolding eq by (rule depth_step[OF n1 ih sm])
        next
          case one: False
          show ?thesis
          proof (cases "projectionByBboxes sub 0 pageWidth")
            case (Inl err)
            then show ?thesis using False Inr p1 one by (subst yx_depth.simps) (simp add: Let_def)
          next
            case p2: (Inr proj2)
            let ?s2 = "splitProjectionProfile proj2 ?mv (min_gap pageWidth (minGapRatio config))"
            show ?thesis
            proof (cases "1 < length ?s2")
              case True
              have eq: "yx_depth boxes indices pageWidth pageHeight config =
                  1 + max_list (map (\<lambda>seg. yx_depth boxes (group_by 0 indices sub seg)
                                       pageWidth pageHeight config) ?s2)"
                using False Inr p1 one p2 True by (subst yx_depth.simps) (simp add: Let_def)
              have ih: "\<And>seg. seg \<in> set ?s2 \<Longrightarrow>
                  yx_depth boxes (group_by 0 indices sub seg) pageWidth pageHeight config
                    \<le> length (group_by 0 indices sub seg)"
                using False Inr p1 one p2 True by (intro "1.IH"(2)) auto
              have sm: "\<And>seg. seg \<in> set ?s2 \<Longrightarrow> length (group_by 0 indices sub seg) < length indices"
                using group_smaller[OF p2 _ True len] by blast
              show ?thesis unfolding eq by (rule depth_step[OF n1 ih sm])
            next
              case False2: False
              show ?thesis using False Inr p1 one p2 False2
                by (subst yx_depth.simps) (simp add: Let_def)
            qed
          qed
        qed
      qed
    qed
  qed
qed

lemma xy_depth_singleton: "xy_depth boxes [i] w h c = 0"
  by (subst xy_depth.simps) simp

lemma yx_depth_singleton: "yx_depth boxes [i] w h c = 0"
  by (subst yx_depth.simps) simp

lemma drop_xy_depth: "xy_depth drop_boxes [0, 1, 2] 20 20 default_config = 1"
  by (subst xy_depth.simps)
     (simp add: drop_gather cfg_gap drop_xproj drop_xsegs drop_groups xy_depth_singleton
        max_list_def del: gather.simps)

lemma drop_yx_depth: "yx_depth drop_boxes [0, 1, 2] 20 20 default_config = 1"
  by (subst yx_depth.simps)
     (simp add: drop_gather cfg_gap drop_yproj drop_ysegs drop_xproj drop_xsegs drop_groups
        yx_depth_singleton max_list_def del: gather.simps)

lemma drop_length: "length drop_boxes = 3"
  by (simp add: drop_boxes_def)

section \<open>The segments of a histogram moved by whole pixels\<close>








lemma in_seg_shift: "in_seg (c + real_of_int d) (shift_seg d a) = in_seg c a"
  by (simp add: in_seg_def shift_seg_def)



section \<open>The projection of translated boxes\<close>
















section \<open>The recursive cut of translated boxes\<close>




















subsection \<open>The insertion sort is local\<close>






subsection \<open>Concrete runs with translated boxes\<close>













section \<open>The claims\<close>

subsection \<open>Claim C1\<close>

text \<open>
  Claim C1 states that \<open>xycutPlusSort\<close> returns a permutation of \<open>0..N-1\<close> for every
  input. The code does not: on a 20 by 20 page with the default configuration, two
  column boxes and a zero-width box between them give \<open>[0, 1]\<close>, whatever the sorting
  routine. The centre of box 2 lies in the gap between the two X-segments, so no group
  receives it.
\<close>

theorem xycut_drops_box_in_gap:
  "xycutPlusSort srt [mk_box 0 0 4 10, mk_box 12 0 16 10, mk_box 8 2 8 6] 20 20 default_config
     = Inr [0, 1]"
proof -
  have "recursiveYXCut srt drop_boxes [0, 1, 2] 20 20 default_config = Inr [0, 1]"
    by (subst recursiveYXCut.simps)
       (simp add: drop_gather cfg_gap drop_yproj drop_ysegs drop_xproj drop_xsegs drop_groups
          cut_singleton del: gather.simps)
  moreover have "map int [0..<length drop_boxes] = [0, 1, 2]"
    by (simp add: drop_boxes_def upt_conv_Cons)
  moreover have "direction default_config = AUTO" by (simp add: default_config_def)
  moreover have "drop_boxes \<noteq> []" by (simp add: drop_boxes_def)
  ultimately have "xycutPlusSort srt drop_boxes 20 20 default_config = Inr [0, 1]"
    by (simp add: xycutPlusSort_def drop_detect)
  then show ?thesis by (simp add: drop_boxes_def)
qed

subsection \<open>Claim C2\<close>




subsection \<open>Claim C3\<close>



subsection \<open>Claim C4\<close>



subsection \<open>Claim C5\<close>



subsection \<open>Claim C6\<close>



subsection \<open>Claim C7\<close>



subsection \<open>Claim C8\<close>

text \<open>
  Claim C8. Whenever a projection splits into two or more segments, every group passed to
  a recursive call has fewer indices than the caller's cluster (for either axis, hence at
  the four call sites of \<open>recursiveXYCut\<close> and \<open>recursiveYXCut\<close>); both functions are
  total, their termination proofs resting on this decrease, and their recursion depth is
  at most the number of indices of the cluster.
\<close>

theorem recursive_cut_terminates:
  "(projectionByBboxes sub axis page = Inr proj \<and> length sub = length indices \<and>
      1 < length (splitProjectionProfile proj mv mg) \<and>
      seg \<in> set (splitProjectionProfile proj mv mg)
      \<longrightarrow> length (group_by axis indices sub seg) < length indices) \<and>
   xy_depth boxes cluster pageWidth pageHeight config \<le> length cluster \<and>
   yx_depth boxes cluster pageWidth pageHeight config \<le> length cluster"
  using group_smaller xy_depth_le yx_depth_le by blast

theorem recursive_cut_terminates_witness:
  "projectionByBboxes drop_boxes 0 20 = Inr [1,1,1,1,0,0,0,0,0,0,0,0,1,1,1,1,0,0,0,0] \<and>
   length drop_boxes = length [0, 1, 2 :: int] \<and>
   splitProjectionProfile [1,1,1,1,0,0,0,0,0,0,0,0,1,1,1,1,0,0,0,0] 0 1 = [(0, 4), (12, 16)] \<and>
   length (group_by 0 [0, 1, 2] drop_boxes (0, 4)) = 1 \<and>
   xy_depth drop_boxes [0, 1, 2] 20 20 default_config = 1 \<and>
   yx_depth drop_boxes [0, 1, 2] 20 20 default_config = 1"
  using recursive_cut_terminates[of drop_boxes 0 20 "[1,1,1,1,0,0,0,0,0,0,0,0,1,1,1,1,0,0,0,0]"
      "[0, 1, 2]" 0 1 "(0, 4)" drop_boxes "[0, 1, 2]" 20 20 default_config]
    drop_length
  by (simp add: drop_xproj drop_xsegs drop_groups drop_xy_depth drop_yx_depth)

subsection \<open>Claim C9\<close>




subsection \<open>Claim C10\<close>

text \<open>
  Claim C10. For every histogram, \<open>minValue\<close> and \<open>minGap\<close>, every returned segment
  \<open>(start, end)\<close> satisfies \<open>0 \<le> start < end \<le> size\<close>, and the segments are listed
  in strictly increasing order, each ending before the next one starts (so they are
  pairwise disjoint).
\<close>

theorem split_segments_well_formed:
  "(\<forall>se \<in> set (splitProjectionProfile hist mv mg).
       0 \<le> fst se \<and> fst se < snd se \<and> snd se \<le> int (length hist)) \<and>
   sorted_wrt (\<lambda>a b. snd a < fst b) (splitProjectionProfile hist mv mg)"
proof
  show "\<forall>se \<in> set (splitProjectionProfile hist mv mg).
       0 \<le> fst se \<and> fst se < snd se \<and> snd se \<le> int (length hist)"
    using split_range by blast
  show "sorted_wrt (\<lambda>a b. snd a < fst b) (splitProjectionProfile hist mv mg)"
    by (rule sorted_wrt_mono_rel[OF _ split_sorted[of mg hist mv]]) simp
qed

theorem split_segments_well_formed_witness:
  "splitProjectionProfile [1,1,0,0,1,0] 0 2 = [(0,2),(4,6)] \<and>
   (0::int) < 2 \<and> (2::int) < 4 \<and> (4::int) < 6 \<and> (6::int) \<le> int (length [1,1,0,0,1,0::int])"
  using split_segments_well_formed[of "[1,1,0,0,1,0]" 0 2]
  by (simp add: split_eval_a)

end
